theory Spec2Isabelle
  imports Main "HOL-Library.Word"
begin

unbundle bit_operations_syntax

section \<open>Colors and the heap\<close>

text \<open>
  \<^verbatim>\<open>RGBAColor\<close> is a POD of four bytes (the two \<^verbatim>\<open>static_assert\<close>s at the top of
  RenderLoop.cxx). \<^verbatim>\<open>std::size_t\<close> is the 64-bit unsigned integer of the platforms the
  daemon runs on; its arithmetic wraps around.
\<close>

type_synonym size_t = "64 word"

record RGBAColor =
  red :: "8 word"
  green :: "8 word"
  blue :: "8 word"
  alpha :: "8 word"

text \<open>
  A pointer to a color is null or names an allocation and a cell offset inside it. The heap
  maps every live allocation to its cells; \<open>next_alloc\<close> is the next unused allocation
  name.
\<close>

datatype ptr = nullptr | Ptr nat nat

record heap =
  allocs :: "nat \<rightharpoonup> RGBAColor list"
  next_alloc :: nat

definition load :: "heap \<Rightarrow> ptr \<Rightarrow> RGBAColor option" where
  "load h p =
     (case p of
        nullptr \<Rightarrow> None
      | Ptr a k \<Rightarrow>
          (case allocs h a of
             None \<Rightarrow> None
           | Some cs \<Rightarrow> if k < length cs then Some (cs ! k) else None))"

definition store :: "heap \<Rightarrow> ptr \<Rightarrow> RGBAColor \<Rightarrow> heap option" where
  "store h p c =
     (case p of
        nullptr \<Rightarrow> None
      | Ptr a k \<Rightarrow>
          (case allocs h a of
             None \<Rightarrow> None
           | Some cs \<Rightarrow>
               if k < length cs then Some (h\<lparr>allocs := (allocs h)(a \<mapsto> cs[k := c])\<rparr>)
               else None))"

text \<open>
  \<^verbatim>\<open>posix_memalign(&p, alignment, size)\<close>: the environment decides whether the request
  succeeds and what the fresh memory holds. \<open>None\<close> is a failed request; \<open>Some g\<close> is a
  successful one whose cell \<open>i\<close> holds \<open>g i\<close>. The size is in bytes, four per cell.
  Nothing is written to the new cells.
\<close>

type_synonym memory = "nat \<Rightarrow> RGBAColor"

definition posix_memalign :: "heap \<Rightarrow> size_t \<Rightarrow> size_t \<Rightarrow> memory option \<Rightarrow> (ptr \<times> heap) option" where
  "posix_memalign h alignment sz env =
     (case env of
        None \<Rightarrow> None
      | Some g \<Rightarrow>
          Some (Ptr (next_alloc h) 0,
                h\<lparr>allocs := (allocs h)(next_alloc h \<mapsto> map g [0..<unat sz div 4]),
                  next_alloc := Suc (next_alloc h)\<rparr>))"

text \<open>\<^verbatim>\<open>free(p)\<close>: releasing the null pointer does nothing.\<close>

definition free :: "heap \<Rightarrow> ptr \<Rightarrow> heap" where
  "free h p =
     (case p of
        nullptr \<Rightarrow> h
      | Ptr a k \<Rightarrow> h\<lparr>allocs := (allocs h)(a := None)\<rparr>)"

section \<open>RenderTarget\<close>

definition align_bytes :: size_t where
  "align_bytes = 32"

definition sizeof_RGBAColor :: size_t where
  "sizeof_RGBAColor = 4"

definition align_colors :: size_t where
  "align_colors = align_bytes div sizeof_RGBAColor"

definition align :: "size_t \<Rightarrow> size_t \<Rightarrow> size_t" where
  "align val alignment = (val + alignment - 1) AND NOT (alignment - 1)"

record RenderTarget =
  m_colors :: ptr
  m_nbColors :: size_t
  m_blocks :: "ptr list"

text \<open>
  The error codes of keyleds.h, which is not under src/: the two codes \<^verbatim>\<open>run\<close> tests
  for, and the others. A \<^verbatim>\<open>Device::error\<close> has a code and a message.
\<close>

datatype keyleds_error_t =
  KEYLEDS_NO_ERROR | KEYLEDS_ERROR_ERRNO | KEYLEDS_ERROR_TIMEDOUT | KEYLEDS_ERROR_OTHER nat

record device_error =
  code :: keyleds_error_t
  what :: string

text \<open>
  What a call can raise: \<^verbatim>\<open>Device::error\<close>, another exception derived from
  \<^verbatim>\<open>std::exception\<close>, or an exception of a type that is not derived from it. \<open>Fault\<close> is the
  undefined behaviour of addressing memory outside a live allocation, which no handler
  catches.
\<close>

datatype exn = DeviceError device_error | StdException string | OtherException | Fault

text \<open>The first loop of the constructor: the number of colors, padding included.\<close>

fun totalColors_loop :: "size_t \<Rightarrow> size_t list \<Rightarrow> size_t" where
  "totalColors_loop totalColors [] = totalColors"
| "totalColors_loop totalColors (nbColors # block_sizes) =
     totalColors_loop (align (totalColors + nbColors) align_colors) block_sizes"

text \<open>
  Pointer arithmetic \<^verbatim>\<open>&p[n]\<close>. A pointer derived from the null pointer addresses nothing.
\<close>

fun ptr_add :: "ptr \<Rightarrow> nat \<Rightarrow> ptr" where
  "ptr_add nullptr n = nullptr"
| "ptr_add (Ptr a k) n = Ptr a (k + n)"

text \<open>The second loop: one pointer per block, \<^verbatim>\<open>&m_colors[totalColors]\<close>.\<close>

fun blocks_loop :: "ptr \<Rightarrow> size_t \<Rightarrow> size_t list \<Rightarrow> ptr list" where
  "blocks_loop colors totalColors [] = []"
| "blocks_loop colors totalColors (nbColors # block_sizes) =
     ptr_add colors (unat totalColors)
       # blocks_loop colors (align (totalColors + nbColors) align_colors) block_sizes"

definition RenderTarget_ctor ::
  "size_t list \<Rightarrow> memory option \<Rightarrow> heap \<Rightarrow> (exn + RenderTarget) \<times> heap" where
  "RenderTarget_ctor block_sizes env h =
     (let totalColors = totalColors_loop 0 block_sizes in
      case posix_memalign h align_bytes (totalColors * sizeof_RGBAColor) env of
        None \<Rightarrow> (Inl (StdException ''std::bad_alloc''), h)
      | Some (p, h') \<Rightarrow>
          (Inr \<lparr>m_colors = p, m_nbColors = totalColors,
                m_blocks = blocks_loop p 0 block_sizes\<rparr>, h'))"

definition RenderTarget_size :: "RenderTarget \<Rightarrow> size_t" where
  "RenderTarget_size rt = m_nbColors rt"

text \<open>
  Modelled from the spec: \<^verbatim>\<open>RenderTarget::get(blockIndex, keyIndex)\<close>, whose declaration
  is not in the header under src/. It is direct addressed access with no bounds check:
  the cell \<^verbatim>\<open>m_blocks[bidx][kidx]\<close>. A block index outside \<^verbatim>\<open>m_blocks\<close> addresses nothing.
\<close>

definition RenderTarget_get :: "RenderTarget \<Rightarrow> nat \<Rightarrow> nat \<Rightarrow> ptr" where
  "RenderTarget_get rt bidx kidx =
     (if bidx < length (m_blocks rt) then ptr_add (m_blocks rt ! bidx) kidx else nullptr)"

text \<open>
  The move constructor: \<^verbatim>\<open>m_colors\<close> starts null and is swapped with the other's, the
  count is copied, the block pointers are moved. The moved-from vector is left empty, as
  the standard library implementations the daemon is built with do. The result is the new
  object and the moved-from one.
\<close>

definition RenderTarget_move :: "RenderTarget \<Rightarrow> RenderTarget \<times> RenderTarget" where
  "RenderTarget_move other =
     (\<lparr>m_colors = m_colors other, m_nbColors = m_nbColors other, m_blocks = m_blocks other\<rparr>,
      \<lparr>m_colors = nullptr, m_nbColors = m_nbColors other, m_blocks = []\<rparr>)"

definition RenderTarget_dtor :: "RenderTarget \<Rightarrow> heap \<Rightarrow> heap" where
  "RenderTarget_dtor rt h = free h (m_colors rt)"

text \<open>\<^verbatim>\<open>keyleds::swap\<close>: the three members are exchanged; no cell is touched.\<close>

definition swap :: "RenderTarget \<Rightarrow> RenderTarget \<Rightarrow> RenderTarget \<times> RenderTarget" where
  "swap lhs rhs =
     (lhs\<lparr>m_colors := m_colors rhs, m_nbColors := m_nbColors rhs, m_blocks := m_blocks rhs\<rparr>,
      rhs\<lparr>m_colors := m_colors lhs, m_nbColors := m_nbColors lhs, m_blocks := m_blocks lhs\<rparr>)"

section \<open>The device\<close>

text \<open>
  The device is an external collaborator (Device.h is not under src/). It is modelled by
  what the render loop consumes: its blocks of keys, a record of the calls made to it,
  and its behaviour as functions of the calls made so far: whether a call raises, what
  \<^verbatim>\<open>getColors\<close> and \<^verbatim>\<open>resync\<close> return, and the value the call leaves in \<^verbatim>\<open>errno\<close>.
  A block argument \<^verbatim>\<open>blocks[bidx]\<close> is recorded as its position \<open>bidx\<close>.
\<close>

type_synonym key_id = nat

text \<open>
  \<^verbatim>\<open>Device::ColorDirective\<close>: a key identifier and three channels, filled in this order by
  \<^verbatim>\<open>render\<close>. The fields carry a prefix, the names of the channels being those of
  \<^verbatim>\<open>RGBAColor\<close>.
\<close>

record ColorDirective =
  dir_id :: key_id
  dir_red :: "8 word"
  dir_green :: "8 word"
  dir_blue :: "8 word"

record KeyBlock =
  keys :: "key_id list"

datatype call =
  Flush | SetColors nat "ColorDirective list" | CommitColors
  | GetColors nat | SetTimeout nat | Resync

record Device =
  blocks :: "KeyBlock list"
  calls :: "call list"
  raises :: "call list \<Rightarrow> call \<Rightarrow> exn option"
  colors :: "call list \<Rightarrow> nat \<Rightarrow> ColorDirective list"
  resyncs :: "call list \<Rightarrow> bool"
  sets_errno :: "call list \<Rightarrow> call \<Rightarrow> nat"


section \<open>RenderLoop\<close>

text \<open>
  Modelled from the spec: the \<^verbatim>\<open>Renderer\<close> capability, whose class is not under src/.
  Its single operation \<^verbatim>\<open>render(nanosec, target)\<close> paints cells of the target and has no
  error channel: given the elapsed time and the target's cells it yields the color of
  every cell afterwards.
\<close>

type_synonym Renderer = "nat \<Rightarrow> RGBAColor list \<Rightarrow> nat \<Rightarrow> RGBAColor"

text \<open>
  The render loop object, with the parts of the process it acts on: the device it
  refers to, the heap, \<^verbatim>\<open>errno\<close> and the lines logged through \<^verbatim>\<open>ERROR\<close>. The mutex of
  the renderer list orders the accesses of other threads and has no state of its own
  here.
\<close>

record RenderLoop =
  m_device :: Device
  m_renderers :: "Renderer list"
  m_state :: RenderTarget
  m_buffer :: RenderTarget
  m_directives :: "ColorDirective list"
  mem :: heap
  errno :: nat
  logged :: "string list"

type_synonym 'a result = "(exn + 'a) \<times> RenderLoop"


text \<open>A call to the device: it is recorded, \<^verbatim>\<open>errno\<close> is set, and it may raise.\<close>

definition Device_call :: "call \<Rightarrow> RenderLoop \<Rightarrow> exn option \<times> RenderLoop" where
  "Device_call c L =
     (let d = m_device L in
      (raises d (calls d) c,
       L\<lparr>m_device := d\<lparr>calls := calls d @ [c]\<rparr>, errno := sets_errno d (calls d) c\<rparr>))"

definition Device_flush :: "RenderLoop \<Rightarrow> unit result" where
  "Device_flush L =
     (case Device_call Flush L of (Some e, L') \<Rightarrow> (Inl e, L') | (None, L') \<Rightarrow> (Inr (), L'))"

definition Device_setColors :: "nat \<Rightarrow> ColorDirective list \<Rightarrow> RenderLoop \<Rightarrow> unit result" where
  "Device_setColors bidx directives L =
     (case Device_call (SetColors bidx directives) L of
        (Some e, L') \<Rightarrow> (Inl e, L')
      | (None, L') \<Rightarrow> (Inr (), L'))"

definition Device_commitColors :: "RenderLoop \<Rightarrow> unit result" where
  "Device_commitColors L =
     (case Device_call CommitColors L of
        (Some e, L') \<Rightarrow> (Inl e, L')
      | (None, L') \<Rightarrow> (Inr (), L'))"

definition Device_setTimeout :: "nat \<Rightarrow> RenderLoop \<Rightarrow> unit result" where
  "Device_setTimeout us L =
     (case Device_call (SetTimeout us) L of
        (Some e, L') \<Rightarrow> (Inl e, L')
      | (None, L') \<Rightarrow> (Inr (), L'))"

definition Device_getColors :: "nat \<Rightarrow> RenderLoop \<Rightarrow> (ColorDirective list) result" where
  "Device_getColors bidx L =
     (case Device_call (GetColors bidx) L of
        (Some e, L') \<Rightarrow> (Inl e, L')
      | (None, L') \<Rightarrow> (Inr (colors (m_device L) (calls (m_device L)) bidx), L'))"

definition Device_resync :: "RenderLoop \<Rightarrow> bool result" where
  "Device_resync L =
     (case Device_call Resync L of
        (Some e, L') \<Rightarrow> (Inl e, L')
      | (None, L') \<Rightarrow> (Inr (resyncs (m_device L) (calls (m_device L))), L'))"

subsection \<open>Construction\<close>

definition renderTargetFor :: "Device \<Rightarrow> memory option \<Rightarrow> heap \<Rightarrow> (exn + RenderTarget) \<times> heap" where
  "renderTargetFor device env h =
     RenderTarget_ctor (map (\<lambda>block. of_nat (length (keys block))) (blocks device)) env h"

text \<open>
  The constructor builds \<^verbatim>\<open>m_state\<close>, then \<^verbatim>\<open>m_buffer\<close>; the two allocation requests are
  answered by \<open>env_state\<close> and \<open>env_buffer\<close>. When the second request fails, the first
  target is destroyed again. Reserving room for the directives leaves the list empty.
  The rate only sets the period of the ticks.
\<close>

definition RenderLoop_ctor ::
  "Device \<Rightarrow> Renderer list \<Rightarrow> nat \<Rightarrow> memory option \<Rightarrow> memory option \<Rightarrow> heap
     \<Rightarrow> (exn \<times> heap) + RenderLoop" where
  "RenderLoop_ctor device renderers fps env_state env_buffer h =
     (case renderTargetFor device env_state h of
        (Inl e, h1) \<Rightarrow> Inl (e, h1)
      | (Inr state, h1) \<Rightarrow>
          (case renderTargetFor device env_buffer h1 of
             (Inl e, h2) \<Rightarrow> Inl (e, RenderTarget_dtor state h2)
           | (Inr buffer, h2) \<Rightarrow>
               Inr \<lparr>m_device = device, m_renderers = renderers, m_state = state,
                    m_buffer = buffer, m_directives = [], mem = h2, errno = 0,
                    logged = []\<rparr>))"

definition setRenderers :: "Renderer list \<Rightarrow> RenderLoop \<Rightarrow> RenderLoop" where
  "setRenderers renderers L = L\<lparr>m_renderers := renderers\<rparr>"

subsection \<open>render\<close>

definition run_renderer :: "Renderer \<Rightarrow> nat \<Rightarrow> RenderTarget \<Rightarrow> heap \<Rightarrow> heap option" where
  "run_renderer renderer nanosec target h =
     (case m_colors target of
        nullptr \<Rightarrow> None
      | Ptr a k \<Rightarrow>
          (case allocs h a of
             None \<Rightarrow> None
           | Some cells \<Rightarrow>
               if k = 0
               then Some (h\<lparr>allocs := (allocs h)(a \<mapsto>
                            map (renderer nanosec cells) [0..<length cells])\<rparr>)
               else None))"

fun run_renderers :: "nat \<Rightarrow> Renderer list \<Rightarrow> RenderTarget \<Rightarrow> heap \<Rightarrow> heap option" where
  "run_renderers nanosec [] target h = Some h"
| "run_renderers nanosec (renderer # renderers) target h =
     (case run_renderer renderer nanosec target h of
        None \<Rightarrow> None
      | Some h' \<Rightarrow> run_renderers nanosec renderers target h')"

text \<open>
  The inner loop of the diff, over the key indices of block \<open>bidx\<close>. The comparison
  \<^verbatim>\<open>!=\<close> of colors.h, which is not under src/, is exact equality of the four channels, as
  the specification has it. Reading outside a live allocation is a fault.
\<close>

fun diff_keys ::
  "heap \<Rightarrow> RenderTarget \<Rightarrow> RenderTarget \<Rightarrow> KeyBlock \<Rightarrow> nat \<Rightarrow> nat list \<Rightarrow> ColorDirective list
     \<Rightarrow> ColorDirective list option" where
  "diff_keys h buffer state block bidx [] directives = Some directives"
| "diff_keys h buffer state block bidx (idx # idxs) directives =
     (case load h (RenderTarget_get buffer bidx idx) of
        None \<Rightarrow> None
      | Some color \<Rightarrow>
          (case load h (RenderTarget_get state bidx idx) of
             None \<Rightarrow> None
           | Some old \<Rightarrow>
               diff_keys h buffer state block bidx idxs
                 (if color \<noteq> old
                  then directives @
                         [\<lparr>dir_id = keys block ! idx, dir_red = red color,
                           dir_green = green color, dir_blue = blue color\<rparr>]
                  else directives)))"

text \<open>The outer loop of the diff, over the block indices, with \<^verbatim>\<open>hasChanges\<close>.\<close>

fun diff_blocks :: "nat list \<Rightarrow> bool \<Rightarrow> RenderLoop \<Rightarrow> bool result" where
  "diff_blocks [] hasChanges L = (Inr hasChanges, L)"
| "diff_blocks (bidx # bidxs) hasChanges L =
     (let block = blocks (m_device L) ! bidx;
          nKeys = length (keys block);
          L0 = L\<lparr>m_directives := []\<rparr>
      in case diff_keys (mem L0) (m_buffer L0) (m_state L0) block bidx [0..<nKeys]
                (m_directives L0) of
           None \<Rightarrow> (Inl Fault, L0)
         | Some directives \<Rightarrow>
             (let L1 = L0\<lparr>m_directives := directives\<rparr> in
              if directives \<noteq> []
              then (case Device_setColors bidx directives L1 of
                      (Inl e, L2) \<Rightarrow> (Inl e, L2)
                    | (Inr u, L2) \<Rightarrow> diff_blocks bidxs True L2)
              else diff_blocks bidxs hasChanges L1))"

definition render :: "nat \<Rightarrow> RenderLoop \<Rightarrow> bool result" where
  "render nanosec L =
     (let hasRenderers = (m_renderers L \<noteq> []) in
      case run_renderers nanosec (m_renderers L) (m_buffer L) (mem L) of
        None \<Rightarrow> (Inl Fault, L)
      | Some h \<Rightarrow>
          (let L1 = L\<lparr>mem := h\<rparr> in
           if hasRenderers
           then (case Device_flush L1 of
                   (Inl e, L2) \<Rightarrow> (Inl e, L2)
                 | (Inr u, L2) \<Rightarrow>
                     (case diff_blocks [0..<length (blocks (m_device L2))] False L2 of
                        (Inl e, L3) \<Rightarrow> (Inl e, L3)
                      | (Inr hasChanges, L3) \<Rightarrow>
                          (case (if hasChanges then Device_commitColors L3 else (Inr (), L3)) of
                             (Inl e, L4) \<Rightarrow> (Inl e, L4)
                           | (Inr u', L4) \<Rightarrow>
                               (case swap (m_state L4) (m_buffer L4) of
                                  (state, buffer) \<Rightarrow>
                                    (Inr True, L4\<lparr>m_state := state, m_buffer := buffer\<rparr>)))))
           else (Inr True, L1)))"

subsection \<open>getDeviceState\<close>

fun write_colors ::
  "RenderTarget \<Rightarrow> nat \<Rightarrow> nat \<Rightarrow> ColorDirective list \<Rightarrow> heap \<Rightarrow> heap option" where
  "write_colors state block_idx idx [] h = Some h"
| "write_colors state block_idx idx (c # cs) h =
     (case load h (RenderTarget_get state block_idx idx) of
        None \<Rightarrow> None
      | Some color \<Rightarrow>
          (case store h (RenderTarget_get state block_idx idx)
                  (color\<lparr>red := dir_red c, green := dir_green c, blue := dir_blue c,
                         alpha := 255\<rparr>) of
             None \<Rightarrow> None
           | Some h' \<Rightarrow> write_colors state block_idx (Suc idx) cs h'))"

fun getDeviceState_loop :: "nat list \<Rightarrow> RenderTarget \<Rightarrow> RenderLoop \<Rightarrow> unit result" where
  "getDeviceState_loop [] state L = (Inr (), L)"
| "getDeviceState_loop (block_idx # block_idxs) state L =
     (case Device_getColors block_idx L of
        (Inl e, L1) \<Rightarrow> (Inl e, L1)
      | (Inr cs, L1) \<Rightarrow>
          (case write_colors state block_idx 0 cs (mem L1) of
             None \<Rightarrow> (Inl Fault, L1)
           | Some h \<Rightarrow> getDeviceState_loop block_idxs state (L1\<lparr>mem := h\<rparr>)))"

definition getDeviceState :: "RenderTarget \<Rightarrow> RenderLoop \<Rightarrow> unit result" where
  "getDeviceState state L =
     getDeviceState_loop [0..<length (blocks (m_device L))] state L"

subsection \<open>run\<close>

text \<open>
  Modelled from the spec: \<^verbatim>\<open>AnimationLoop::run\<close>, the periodic phase, which is not under
  src/. It invokes the step with the time elapsed since the previous invocation until the
  step signals stop or a stop is requested; what the step raises propagates. The ticks are
  the elapsed times of the invocations that take place before the stop request is
  observed. The phase yields the ticks it has not consumed. An execution in which no stop
  is ever requested and nothing is raised does not return; no list of ticks describes it.
\<close>

fun AnimationLoop_run :: "nat list \<Rightarrow> RenderLoop \<Rightarrow> (exn + unit) \<times> nat list \<times> RenderLoop" where
  "AnimationLoop_run [] L = (Inr (), [], L)"
| "AnimationLoop_run (nanosec # ticks) L =
     (case render nanosec L of
        (Inl e, L') \<Rightarrow> (Inl e, ticks, L')
      | (Inr continue, L') \<Rightarrow>
          if continue then AnimationLoop_run ticks L' else (Inr (), ticks, L'))"

text \<open>A phase that ends by raising has consumed the tick on which it raised.\<close>

lemma AnimationLoop_run_raises_shorter:
  "AnimationLoop_run ticks L = (Inl e, rest, L') \<Longrightarrow> length rest < length ticks"
proof (induction ticks arbitrary: L)
  case Nil
  then show ?case by simp
next
  case (Cons nanosec ticks)
  show ?case
  proof (cases "render nanosec L")
    case (Pair r L1)
    show ?thesis
    proof (cases r)
      case (Inl x)
      with Pair Cons.prems show ?thesis by simp
    next
      case (Inr continue)
      with Pair Cons.prems have "continue"
        by (auto split: if_splits)
      with Pair Inr Cons.prems have "AnimationLoop_run ticks L1 = (Inl e, rest, L')"
        by simp
      from Cons.IH [OF this] show ?thesis by simp
    qed
  qed
qed

text \<open>
  The retry loop of \<^verbatim>\<open>run\<close>: the periodic phase is started; when it raises a device error
  the device is asked to resynchronise, and the error is raised again when that fails.
\<close>

function run_loop :: "nat list \<Rightarrow> RenderLoop \<Rightarrow> (exn + unit) \<times> nat list \<times> RenderLoop" where
  "run_loop ticks L =
     (case AnimationLoop_run ticks L of
        (Inr u, rest, L1) \<Rightarrow> (Inr (), rest, L1)
      | (Inl (DeviceError error), rest, L1) \<Rightarrow>
          (case Device_resync L1 of
             (Inl e, L2) \<Rightarrow> (Inl e, rest, L2)
           | (Inr ok, L2) \<Rightarrow>
               if \<not> ok then (Inl (DeviceError error), rest, L2) else run_loop rest L2)
      | (Inl (StdException msg), rest, L1) \<Rightarrow> (Inl (StdException msg), rest, L1)
      | (Inl OtherException, rest, L1) \<Rightarrow> (Inl OtherException, rest, L1)
      | (Inl Fault, rest, L1) \<Rightarrow> (Inl Fault, rest, L1))"
  by pat_completeness auto
termination
proof (relation "measure (\<lambda>(ticks, L). length ticks)")
  show "wf (measure (\<lambda>(ticks, L). length ticks))" by simp
next
  fix ticks :: "nat list" and L L1 L2 :: RenderLoop and x y a rest
  assume "(x, y) = AnimationLoop_run ticks L" and "x = Inl a" and "(rest, L1) = y"
  then have "AnimationLoop_run ticks L = (Inl a, rest, L1)" by simp
  then have "length rest < length ticks" by (rule AnimationLoop_run_raises_shorter)
  then show "((rest, L2), ticks, L) \<in> measure (\<lambda>(ticks, L). length ticks)" by simp
qed

declare run_loop.simps [simp del]




section \<open>The layout on unbounded numbers\<close>

text \<open>
  The running total of the constructor's loops, computed on natural numbers: after each
  block the total is rounded up to the next multiple of eight cells.
\<close>

definition round_up :: "nat \<Rightarrow> nat" where
  "round_up n = (n + 7) div 8 * 8"

definition aligned_total :: "nat list \<Rightarrow> nat" where
  "aligned_total ns = foldl (\<lambda>t n. round_up (t + n)) 0 ns"

text \<open>
  The block-size sequences on which no \<^verbatim>\<open>size_t\<close> computation of the constructor wraps
  around: the byte size of the padded total fits in 64 bits.
\<close>

definition fits_size_t :: "size_t list \<Rightarrow> bool" where
  "fits_size_t block_sizes \<longleftrightarrow> 4 * aligned_total (map unat block_sizes) < 2 ^ 64"

definition zero_memory :: memory where
  "zero_memory = (\<lambda>i. \<lparr>red = 0, green = 0, blue = 0, alpha = 0\<rparr>)"

definition empty_heap :: heap where
  "empty_heap = \<lparr>allocs = Map.empty, next_alloc = 0\<rparr>"

section \<open>What a tick is expected to send\<close>

text \<open>
  Following the specification's words: for a block, one directive per key index whose
  scratch color differs from the current-state color, carrying the key identifier and
  the red, green and blue of the scratch color.
\<close>

definition expected_directives ::
  "heap \<Rightarrow> RenderTarget \<Rightarrow> RenderTarget \<Rightarrow> KeyBlock \<Rightarrow> nat \<Rightarrow> ColorDirective list" where
  "expected_directives h buffer state block bidx =
     map (\<lambda>idx. \<lparr>dir_id = keys block ! idx,
                  dir_red = red (the (load h (RenderTarget_get buffer bidx idx))),
                  dir_green = green (the (load h (RenderTarget_get buffer bidx idx))),
                  dir_blue = blue (the (load h (RenderTarget_get buffer bidx idx)))\<rparr>)
       (filter (\<lambda>idx. load h (RenderTarget_get buffer bidx idx) \<noteq>
                       load h (RenderTarget_get state bidx idx))
          [0..<length (keys block)])"

text \<open>One \<^verbatim>\<open>setColors\<close> per block that has a directive, in block order.\<close>

definition expected_setColors ::
  "heap \<Rightarrow> RenderTarget \<Rightarrow> RenderTarget \<Rightarrow> KeyBlock list \<Rightarrow> nat list \<Rightarrow> call list" where
  "expected_setColors h buffer state blks bidxs =
     concat (map (\<lambda>bidx. if expected_directives h buffer state (blks ! bidx) bidx = [] then []
                          else [SetColors bidx
                                  (expected_directives h buffer state (blks ! bidx) bidx)])
               bidxs)"

text \<open>All the calls of a tick on which no call raises.\<close>

definition expected_calls ::
  "heap \<Rightarrow> RenderTarget \<Rightarrow> RenderTarget \<Rightarrow> KeyBlock list \<Rightarrow> call list" where
  "expected_calls h buffer state blks =
     [Flush] @ expected_setColors h buffer state blks [0..<length blks] @
     (if expected_setColors h buffer state blks [0..<length blks] = [] then []
      else [CommitColors])"



section \<open>Well-formed render targets\<close>

text \<open>The block sizes of the device, as \<^verbatim>\<open>renderTargetFor\<close> collects them.\<close>

definition device_layout :: "Device \<Rightarrow> nat list" where
  "device_layout device = map (\<lambda>block. length (keys block)) (blocks device)"

text \<open>
  A target laid out for the block sizes \<open>ns\<close> in a live allocation: what the constructor
  establishes when its arithmetic does not wrap around.
\<close>

definition valid_target :: "heap \<Rightarrow> RenderTarget \<Rightarrow> nat list \<Rightarrow> bool" where
  "valid_target h rt ns =
     (case m_colors rt of
        nullptr \<Rightarrow> False
      | Ptr a k \<Rightarrow>
          k = 0 \<and>
          m_blocks rt = map (\<lambda>b. Ptr a (aligned_total (take b ns))) [0..<length ns] \<and>
          (case allocs h a of
             None \<Rightarrow> False
           | Some cells \<Rightarrow> length cells = aligned_total ns))"

text \<open>Both targets of a loop are laid out for its device.\<close>

definition loop_valid :: "RenderLoop \<Rightarrow> bool" where
  "loop_valid L \<longleftrightarrow>
     valid_target (mem L) (m_state L) (device_layout (m_device L)) \<and>
     valid_target (mem L) (m_buffer L) (device_layout (m_device L))"

text \<open>Two heaps with the same live allocations, of the same sizes.\<close>

definition same_shape :: "heap \<Rightarrow> heap \<Rightarrow> bool" where
  "same_shape h h' \<longleftrightarrow> (\<forall>a. map_option length (allocs h' a) = map_option length (allocs h a))"

text \<open>
  From \<open>L\<close> to \<open>L'\<close> the targets and the blocks of the device are the same and the heap has
  kept its shape.
\<close>

definition keeps :: "RenderLoop \<Rightarrow> RenderLoop \<Rightarrow> bool" where
  "keeps L L' \<longleftrightarrow>
     same_shape (mem L) (mem L') \<and> m_state L' = m_state L \<and> m_buffer L' = m_buffer L \<and>
     blocks (m_device L') = blocks (m_device L)"



section \<open>Concrete inputs\<close>

text \<open>
  A keyboard with two blocks, of four keys and of one key, that accepts every call, and
  a renderer that paints cell (0, 3) red and cell (1, 0) blue.
\<close>

definition lit_memory :: memory where
  "lit_memory = (\<lambda>i. \<lparr>red = 255, green = 255, blue = 255, alpha = 255\<rparr>)"

definition demo_device :: Device where
  "demo_device =
     \<lparr>blocks = [\<lparr>keys = [10, 11, 12, 13]\<rparr>, \<lparr>keys = [20]\<rparr>],
      calls = [],
      raises = (\<lambda>hist c. None),
      colors = (\<lambda>hist bidx.
                 map (\<lambda>k. \<lparr>dir_id = k, dir_red = 1, dir_green = 2, dir_blue = 3\<rparr>)
                   (if bidx = 0 then [10, 11, 12, 13] else [20])),
      resyncs = (\<lambda>hist. True),
      sets_errno = (\<lambda>hist c. 0)\<rparr>"

definition demo_renderer :: Renderer where
  "demo_renderer nanosec cells i =
     (if i = 3 then \<lparr>red = 255, green = 0, blue = 0, alpha = 255\<rparr>
      else if i = 8 then \<lparr>red = 0, green = 0, blue = 255, alpha = 255\<rparr>
      else cells ! i)"


definition demo_loop :: RenderLoop where
  "demo_loop =
     \<lparr>m_device = demo_device, m_renderers = [demo_renderer],
      m_state = \<lparr>m_colors = Ptr 0 0, m_nbColors = 16, m_blocks = [Ptr 0 0, Ptr 0 8]\<rparr>,
      m_buffer = \<lparr>m_colors = Ptr 1 0, m_nbColors = 16, m_blocks = [Ptr 1 0, Ptr 1 8]\<rparr>,
      m_directives = [],
      mem = \<lparr>allocs = [0 \<mapsto> map zero_memory [0..<16], 1 \<mapsto> map zero_memory [0..<16]],
              next_alloc = 2\<rparr>,
      errno = 0, logged = []\<rparr>"


definition idle_loop :: RenderLoop where
  "idle_loop =
     demo_loop\<lparr>m_renderers := [],
               mem := \<lparr>allocs = [0 \<mapsto> map lit_memory [0..<16], 1 \<mapsto> map zero_memory [0..<16]],
                        next_alloc = 2\<rparr>\<rparr>"















text \<open>Any loop as \<^verbatim>\<open>run\<close> has it when the periodic phase is first entered.\<close>

definition started :: "RenderLoop \<Rightarrow> RenderLoop" where
  "started L = snd (Device_setTimeout 0 (snd (getDeviceState (m_state L) L)))"


section \<open>Calls are only added\<close>

text \<open>From \<open>L\<close> to \<open>L'\<close> the device has received further calls and nothing was logged.\<close>

definition extends :: "RenderLoop \<Rightarrow> RenderLoop \<Rightarrow> bool" where
  "extends L L' \<longleftrightarrow>
     (\<exists>new. calls (m_device L') = calls (m_device L) @ new) \<and> logged L' = logged L"

section \<open>Evaluating the concrete inputs\<close>


section \<open>The layout of a render target\<close>

lemma align_colors_eq: "align_colors = 8"
  by (simp add: align_colors_def align_bytes_def sizeof_RGBAColor_def)

lemma and_not_7: "(w :: size_t) AND NOT 7 = push_bit 3 (drop_bit 3 w)"
proof -
  have "w AND NOT (mask 3) = push_bit 3 (drop_bit 3 w)"
    by (rule bit_eqI) (auto simp: bit_simps)
  then show ?thesis by (simp add: mask_eq_exp_minus_1)
qed

lemma unat_round_down: "unat (push_bit 3 (drop_bit 3 (w::size_t))) = (unat w div 8) * 8"
proof -
  have d: "unat (drop_bit 3 w) = unat w div 8"
    by (simp add: unat_drop_bit_eq drop_bit_eq_div unat_div)
  moreover have "unat w < 2 ^ 64" using unsigned_less [of w] by simp
  ultimately have "unat (drop_bit 3 w) * 8 < 2 ^ 64" by simp
  then have "unat (drop_bit 3 w * 8) = unat (drop_bit 3 w) * 8"
    by (simp add: unat_word_ariths)
  then show ?thesis
    using d by (simp add: push_bit_eq_mult)
qed

lemma align_eq: "align v align_colors = push_bit 3 (drop_bit 3 (v + 7))"
proof -
  have "align v align_colors = (v + 7) AND NOT 7"
    unfolding align_def align_colors_eq by (simp add: add.commute)
  then show ?thesis by (simp only: and_not_7)
qed

lemma align_dvd: "8 dvd unat (align v align_colors)"
  by (simp only: align_eq unat_round_down) simp

lemma unat_align:
  fixes v :: size_t
  assumes "unat v + 7 < 2 ^ 64"
  shows "unat (align v align_colors) = round_up (unat v)"
proof -
  have "unat (v + 7) = unat v + 7"
    using assms by (simp add: unat_word_ariths)
  then show ?thesis
    by (simp only: align_eq unat_round_down round_up_def)
qed

lemma round_up_ge: "n \<le> round_up n"
  unfolding round_up_def by presburger

lemma round_up_dvd: "8 dvd round_up n"
  unfolding round_up_def by simp

lemma round_up_lt: "round_up n < n + 8"
  unfolding round_up_def by presburger

lemma foldl_round_ge: "t \<le> foldl (\<lambda>t n. round_up (t + n)) t ns"
proof (induction ns arbitrary: t)
  case Nil
  show ?case by simp
next
  case (Cons n ns)
  have "t \<le> round_up (t + n)" using round_up_ge [of "t + n"] by simp
  also have "\<dots> \<le> foldl (\<lambda>t n. round_up (t + n)) (round_up (t + n)) ns" by (rule Cons.IH)
  finally show ?case by simp
qed

lemma foldl_round_sum: "t + sum_list ns \<le> foldl (\<lambda>t n. round_up (t + n)) t ns"
proof (induction ns arbitrary: t)
  case Nil
  show ?case by simp
next
  case (Cons n ns)
  have "t + n \<le> round_up (t + n)" by (rule round_up_ge)
  then have "t + sum_list (n # ns) \<le> round_up (t + n) + sum_list ns" by simp
  also have "\<dots> \<le> foldl (\<lambda>t n. round_up (t + n)) (round_up (t + n)) ns" by (rule Cons.IH)
  finally show ?case by simp
qed

lemma aligned_total_snoc: "aligned_total (ns @ [n]) = round_up (aligned_total ns + n)"
  by (simp add: aligned_total_def)

lemma aligned_total_append_ge: "aligned_total ns \<le> aligned_total (ns @ ms)"
  unfolding aligned_total_def foldl_append by (rule foldl_round_ge)

lemma aligned_total_take_mono:
  assumes "b \<le> c"
  shows "aligned_total (take b ns) \<le> aligned_total (take c ns)"
proof -
  have "take c ns = take b ns @ take (c - b) (drop b ns)"
    using assms by (metis le_add_diff_inverse take_add)
  then show ?thesis by (simp add: aligned_total_append_ge)
qed

lemma aligned_total_take_le: "aligned_total (take b ns) \<le> aligned_total ns"
  using aligned_total_append_ge [of "take b ns" "drop b ns"] by simp

lemma aligned_total_dvd: "8 dvd aligned_total ns"
proof (cases ns rule: rev_cases)
  case Nil
  then show ?thesis by (simp add: aligned_total_def)
next
  case (snoc ms m)
  then show ?thesis by (simp add: aligned_total_snoc round_up_dvd)
qed

lemma aligned_total_block_end:
  assumes "b < length ns"
  shows "aligned_total (take b ns) + ns ! b \<le> aligned_total (take (Suc b) ns)"
proof -
  have "take (Suc b) ns = take b ns @ [ns ! b]"
    using assms by (simp add: take_Suc_conv_app_nth)
  then show ?thesis by (simp add: aligned_total_snoc round_up_ge)
qed

text \<open>The constructor's loops compute the layout when nothing wraps around.\<close>

lemma totalColors_loop_unat:
  assumes "4 * foldl (\<lambda>t n. round_up (t + n)) (unat t) (map unat ns) < 2 ^ 64"
  shows "unat (totalColors_loop t ns) = foldl (\<lambda>t n. round_up (t + n)) (unat t) (map unat ns)"
  using assms
proof (induction ns arbitrary: t)
  case Nil
  show ?case by simp
next
  case (Cons n ns)
  let ?f = "\<lambda>t n. round_up (t + n)"
  have "round_up (unat t + unat n) \<le> foldl ?f (round_up (unat t + unat n)) (map unat ns)"
    by (rule foldl_round_ge)
  with Cons.prems have b: "4 * round_up (unat t + unat n) < 2 ^ 64" by simp
  have "unat t + unat n \<le> round_up (unat t + unat n)" by (rule round_up_ge)
  with b have s: "unat t + unat n + 7 < 2 ^ 64" by simp
  then have u: "unat (t + n) = unat t + unat n" by (simp add: unat_word_ariths)
  have a: "unat (align (t + n) align_colors) = round_up (unat t + unat n)"
    using unat_align [of "t + n"] s u by simp
  show ?case using Cons.IH [of "align (t + n) align_colors"] Cons.prems a by simp
qed

lemma blocks_loop_nth:
  assumes "4 * foldl (\<lambda>t n. round_up (t + n)) (unat t) (map unat ns) < 2 ^ 64"
      and "b < length ns"
  shows "blocks_loop (Ptr a 0) t ns ! b =
         Ptr a (foldl (\<lambda>t n. round_up (t + n)) (unat t) (take b (map unat ns)))"
  using assms
proof (induction ns arbitrary: t b)
  case Nil
  then show ?case by simp
next
  case (Cons n ns)
  let ?f = "\<lambda>t n. round_up (t + n)"
  have "round_up (unat t + unat n) \<le> foldl ?f (round_up (unat t + unat n)) (map unat ns)"
    by (rule foldl_round_ge)
  with Cons.prems have b: "4 * round_up (unat t + unat n) < 2 ^ 64" by simp
  have "unat t + unat n \<le> round_up (unat t + unat n)" by (rule round_up_ge)
  with b have s: "unat t + unat n + 7 < 2 ^ 64" by simp
  then have u: "unat (t + n) = unat t + unat n" by (simp add: unat_word_ariths)
  have a: "unat (align (t + n) align_colors) = round_up (unat t + unat n)"
    using unat_align [of "t + n"] s u by simp
  show ?case
  proof (cases b)
    case 0
    then show ?thesis by simp
  next
    case (Suc c)
    with Cons.prems have "c < length ns" by simp
    then show ?thesis
      using Cons.IH [of "align (t + n) align_colors" c] Cons.prems a Suc by simp
  qed
qed

lemma length_blocks_loop: "length (blocks_loop p t ns) = length ns"
  by (induction ns arbitrary: t) simp_all

lemma ctor_success:
  assumes "RenderTarget_ctor block_sizes env h = (Inr rt, h')"
  shows "\<exists>g. env = Some g \<and>
           rt = \<lparr>m_colors = Ptr (next_alloc h) 0,
                 m_nbColors = totalColors_loop 0 block_sizes,
                 m_blocks = blocks_loop (Ptr (next_alloc h) 0) 0 block_sizes\<rparr> \<and>
           h' = h\<lparr>allocs := (allocs h)(next_alloc h \<mapsto>
                        map g [0..<unat (totalColors_loop 0 block_sizes * sizeof_RGBAColor) div 4]),
                   next_alloc := Suc (next_alloc h)\<rparr>"
  using assms
  by (cases env) (auto simp: RenderTarget_ctor_def posix_memalign_def Let_def)

lemma fits_total:
  assumes "fits_size_t block_sizes"
  shows "unat (totalColors_loop 0 block_sizes) = aligned_total (map unat block_sizes)"
  using assms totalColors_loop_unat [of 0 block_sizes]
  by (simp add: fits_size_t_def aligned_total_def)

lemma fits_bytes:
  assumes "fits_size_t block_sizes"
  shows "unat (totalColors_loop 0 block_sizes * sizeof_RGBAColor) div 4 =
         aligned_total (map unat block_sizes)"
proof -
  have "unat (totalColors_loop 0 block_sizes) * 4 < 2 ^ 64"
    using assms fits_total [OF assms] by (simp add: fits_size_t_def)
  then have "unat (totalColors_loop 0 block_sizes * 4) = unat (totalColors_loop 0 block_sizes) * 4"
    by (simp add: unat_word_ariths)
  then show ?thesis
    using fits_total [OF assms] by (simp add: sizeof_RGBAColor_def)
qed

lemma fits_block:
  assumes "fits_size_t block_sizes" and "b < length block_sizes"
  shows "blocks_loop (Ptr a 0) 0 block_sizes ! b =
         Ptr a (aligned_total (take b (map unat block_sizes)))"
  using assms blocks_loop_nth [of 0 block_sizes b a]
  by (simp add: fits_size_t_def aligned_total_def)

lemma cells_disjoint:
  assumes b: "b < length ns" and c: "c < length ns"
      and i: "i < ns ! b" and j: "j < ns ! c"
      and eq: "aligned_total (take b ns) + i = aligned_total (take c ns) + j"
  shows "b = c \<and> i = j"
proof -
  have less: False if "p < q" "q < length ns" "x < ns ! p"
      "aligned_total (take p ns) + x = aligned_total (take q ns) + y" for p q x y
  proof -
    from that have "p < length ns" by simp
    then have "aligned_total (take p ns) + ns ! p \<le> aligned_total (take (Suc p) ns)"
      by (rule aligned_total_block_end)
    also have "\<dots> \<le> aligned_total (take q ns)"
      using that by (simp add: aligned_total_take_mono)
    finally show False using that by simp
  qed
  have "b = c"
  proof (rule ccontr)
    assume "b \<noteq> c"
    then consider "b < c" | "c < b" by linarith
    then show False
    proof cases
      case 1
      then show False using less [of b c i j] c i eq by simp
    next
      case 2
      then show False using less [of c b j i] b j eq by simp
    qed
  qed
  then show ?thesis using eq by simp
qed

text \<open>
  Claim C3, amended. For every block-size sequence on which the constructor's \<^verbatim>\<open>size_t\<close>
  arithmetic does not wrap around, a successful construction yields one allocation such
  that: \<^verbatim>\<open>size()\<close> is its number of cells and is at least the sum of the key counts;
  every block starts at the running total rounded up after each earlier block, a
  multiple of \<^verbatim>\<open>align_colors\<close> (32 / 4 = 8 cells); and every (block, index) with the index
  below the block's key count addresses a cell inside the allocation that no other such
  pair addresses.
\<close>

theorem RenderTarget_layout:
  assumes fits: "fits_size_t block_sizes"
      and ctor: "RenderTarget_ctor block_sizes env h = (Inr rt, h')"
  shows "\<exists>a cells.
           m_colors rt = Ptr a 0 \<and> allocs h' a = Some cells \<and>
           length cells = unat (RenderTarget_size rt) \<and>
           sum_list (map unat block_sizes) \<le> unat (RenderTarget_size rt) \<and>
           (\<forall>b < length block_sizes.
              m_blocks rt ! b = Ptr a (aligned_total (take b (map unat block_sizes))) \<and>
              unat align_colors dvd aligned_total (take b (map unat block_sizes)) \<and>
              (\<forall>i < unat (block_sizes ! b).
                 \<exists>k < length cells.
                   RenderTarget_get rt b i = Ptr a k \<and>
                   (\<forall>b' < length block_sizes. \<forall>i' < unat (block_sizes ! b').
                      RenderTarget_get rt b' i' = Ptr a k \<longrightarrow> b' = b \<and> i' = i)))"
proof -
  let ?ns = "map unat block_sizes"
  let ?a = "next_alloc h"
  from ctor_success [OF ctor] obtain g where
    rt: "rt = \<lparr>m_colors = Ptr ?a 0, m_nbColors = totalColors_loop 0 block_sizes,
               m_blocks = blocks_loop (Ptr ?a 0) 0 block_sizes\<rparr>"
    and h': "h' = h\<lparr>allocs := (allocs h)(?a \<mapsto>
                        map g [0..<unat (totalColors_loop 0 block_sizes * sizeof_RGBAColor) div 4]),
                    next_alloc := Suc ?a\<rparr>"
    by blast
  let ?cells = "map g [0..<aligned_total ?ns]"
  have size: "unat (RenderTarget_size rt) = aligned_total ?ns"
    using fits_total [OF fits] by (simp add: rt RenderTarget_size_def)
  have alloc: "allocs h' ?a = Some ?cells"
    by (simp add: h' fits_bytes [OF fits])
  have sum: "sum_list ?ns \<le> aligned_total ?ns"
    using foldl_round_sum [of 0 ?ns] by (simp add: aligned_total_def)
  have blk: "m_blocks rt ! b = Ptr ?a (aligned_total (take b ?ns))"
    if "b < length block_sizes" for b
    using fits_block [OF fits that] by (simp add: rt)
  have get: "RenderTarget_get rt b i = Ptr ?a (aligned_total (take b ?ns) + i)"
    if "b < length block_sizes" for b i
    using blk [OF that] that by (simp add: RenderTarget_get_def rt length_blocks_loop)
  have inside: "aligned_total (take b ?ns) + i < aligned_total ?ns"
    if "b < length block_sizes" "i < unat (block_sizes ! b)" for b i
  proof -
    have "aligned_total (take b ?ns) + ?ns ! b \<le> aligned_total (take (Suc b) ?ns)"
      using that by (intro aligned_total_block_end) simp
    also have "\<dots> \<le> aligned_total ?ns" by (rule aligned_total_take_le)
    finally show ?thesis using that by simp
  qed
  have cell: "\<exists>k < length ?cells.
                RenderTarget_get rt b i = Ptr ?a k \<and>
                (\<forall>b' < length block_sizes. \<forall>i' < unat (block_sizes ! b').
                   RenderTarget_get rt b' i' = Ptr ?a k \<longrightarrow> b' = b \<and> i' = i)"
    if b: "b < length block_sizes" and i: "i < unat (block_sizes ! b)" for b i
  proof (intro exI conjI allI impI)
    show "aligned_total (take b ?ns) + i < length ?cells"
      using inside [OF b i] by simp
    show "RenderTarget_get rt b i = Ptr ?a (aligned_total (take b ?ns) + i)"
      by (rule get [OF b])
  next
    fix b' i'
    assume b': "b' < length block_sizes" and i': "i' < unat (block_sizes ! b')"
      and "RenderTarget_get rt b' i' = Ptr ?a (aligned_total (take b ?ns) + i)"
    then have "aligned_total (take b' ?ns) + i' = aligned_total (take b ?ns) + i"
      by (simp add: get)
    then show "b' = b" and "i' = i"
      using cells_disjoint [of b' ?ns b i' i] b b' i i' by simp_all
  qed
  have dvd: "unat align_colors dvd aligned_total (take b ?ns)" for b
    using aligned_total_dvd [of "take b ?ns"] by (simp add: align_colors_eq)
  show ?thesis
    apply (rule exI [of _ ?a], rule exI [of _ ?cells])
    using size alloc sum blk cell dvd by (simp add: rt)
qed

theorem RenderTarget_layout_witness:
  "fits_size_t [4, 1] \<and>
   fst (RenderTarget_ctor [4, 1] (Some zero_memory) empty_heap) =
     Inr \<lparr>m_colors = Ptr 0 0, m_nbColors = 16, m_blocks = [Ptr 0 0, Ptr 0 8]\<rparr> \<and>
   sum_list (map unat [4, 1 :: size_t]) \<le>
     unat (RenderTarget_size \<lparr>m_colors = Ptr 0 0, m_nbColors = 16, m_blocks = [Ptr 0 0, Ptr 0 8]\<rparr>)"
proof -
  let ?rt = "\<lparr>m_colors = Ptr 0 0, m_nbColors = 16, m_blocks = [Ptr 0 0, Ptr 0 8]\<rparr>"
  let ?r = "RenderTarget_ctor [4, 1] (Some zero_memory) empty_heap"
  have f: "fits_size_t [4, 1]"
    by (simp add: fits_size_t_def aligned_total_def round_up_def)
  have c: "fst ?r = Inr ?rt"
    by (simp add: RenderTarget_ctor_def posix_memalign_def empty_heap_def
        align_def align_colors_def align_bytes_def sizeof_RGBAColor_def)
  then have "?r = (Inr ?rt, snd ?r)"
    by (metis prod.collapse)
  from RenderTarget_layout [OF f this]
  have "sum_list (map unat [4, 1 :: size_t]) \<le> unat (RenderTarget_size ?rt)"
    by blast
  with f c show ?thesis by blast
qed

text \<open>
  As stated, for every block-size sequence, the claim fails where the arithmetic wraps
  around: for the single block size \<open>2^64 - 1\<close> the aligned total is 0, the construction
  succeeds with \<^verbatim>\<open>size()\<close> = 0, below the key count, and cell (0, 0) is outside the
  allocation.
\<close>

theorem RenderTarget_layout_counterexample:
  "fst (RenderTarget_ctor [0xFFFFFFFFFFFFFFFF] (Some zero_memory) empty_heap) =
     Inr \<lparr>m_colors = Ptr 0 0, m_nbColors = 0, m_blocks = [Ptr 0 0]\<rparr> \<and>
   unat (RenderTarget_size \<lparr>m_colors = Ptr 0 0, m_nbColors = 0, m_blocks = [Ptr 0 0]\<rparr>)
     < sum_list (map unat [0xFFFFFFFFFFFFFFFF :: size_t]) \<and>
   load (snd (RenderTarget_ctor [0xFFFFFFFFFFFFFFFF] (Some zero_memory) empty_heap))
     (RenderTarget_get \<lparr>m_colors = Ptr 0 0, m_nbColors = 0, m_blocks = [Ptr 0 0]\<rparr> 0 0) = None"
  by (simp add: RenderTarget_ctor_def posix_memalign_def empty_heap_def RenderTarget_get_def
      load_def RenderTarget_size_def align_def align_colors_def align_bytes_def
      sizeof_RGBAColor_def)


section \<open>The render step\<close>

lemma swap_eq: "swap lhs rhs = (rhs, lhs)"
  by (simp add: swap_def)

lemma Device_call_eq:
  "Device_call c L =
     (raises (m_device L) (calls (m_device L)) c,
      L\<lparr>m_device := (m_device L)\<lparr>calls := calls (m_device L) @ [c]\<rparr>,
        errno := sets_errno (m_device L) (calls (m_device L)) c\<rparr>)"
  by (simp add: Device_call_def Let_def)

lemma Device_flush_Inr:
  assumes "Device_flush L = (Inr u, L')"
  shows "L' = L\<lparr>m_device := (m_device L)\<lparr>calls := calls (m_device L) @ [Flush]\<rparr>,
               errno := sets_errno (m_device L) (calls (m_device L)) Flush\<rparr>"
  using assms by (auto simp: Device_flush_def Device_call_eq split: option.splits)

lemma Device_setColors_Inr:
  assumes "Device_setColors bidx ds L = (Inr u, L')"
  shows "L' = L\<lparr>m_device := (m_device L)\<lparr>calls := calls (m_device L) @ [SetColors bidx ds]\<rparr>,
               errno := sets_errno (m_device L) (calls (m_device L)) (SetColors bidx ds)\<rparr>"
  using assms by (auto simp: Device_setColors_def Device_call_eq split: option.splits)

lemma Device_commitColors_Inr:
  assumes "Device_commitColors L = (Inr u, L')"
  shows "L' = L\<lparr>m_device := (m_device L)\<lparr>calls := calls (m_device L) @ [CommitColors]\<rparr>,
               errno := sets_errno (m_device L) (calls (m_device L)) CommitColors\<rparr>"
  using assms by (auto simp: Device_commitColors_def Device_call_eq split: option.splits)

lemma diff_keys_Some:
  assumes "diff_keys h buffer state block bidx idxs acc = Some ds"
  shows "ds = acc @ map (\<lambda>idx. \<lparr>dir_id = keys block ! idx,
                  dir_red = red (the (load h (RenderTarget_get buffer bidx idx))),
                  dir_green = green (the (load h (RenderTarget_get buffer bidx idx))),
                  dir_blue = blue (the (load h (RenderTarget_get buffer bidx idx)))\<rparr>)
       (filter (\<lambda>idx. load h (RenderTarget_get buffer bidx idx) \<noteq>
                       load h (RenderTarget_get state bidx idx)) idxs) \<and>
     (\<forall>idx \<in> set idxs. load h (RenderTarget_get buffer bidx idx) \<noteq> None \<and>
                        load h (RenderTarget_get state bidx idx) \<noteq> None)"
  using assms
proof (induction idxs arbitrary: acc)
  case Nil
  then show ?case by simp
next
  case (Cons idx idxs)
  from Cons.prems obtain color old where
    c: "load h (RenderTarget_get buffer bidx idx) = Some color" and
    s: "load h (RenderTarget_get state bidx idx) = Some old"
    by (auto split: option.splits)
  let ?acc = "if color \<noteq> old
              then acc @ [\<lparr>dir_id = keys block ! idx, dir_red = red color,
                           dir_green = green color, dir_blue = blue color\<rparr>]
              else acc"
  from Cons.prems c s have "diff_keys h buffer state block bidx idxs ?acc = Some ds"
    by simp
  from Cons.IH [OF this] show ?case
    using c s by auto
qed

lemma diff_keys_expected:
  assumes "diff_keys h buffer state block bidx [0..<length (keys block)] [] = Some ds"
  shows "ds = expected_directives h buffer state block bidx"
    and "\<And>idx. idx < length (keys block) \<Longrightarrow>
           load h (RenderTarget_get buffer bidx idx) \<noteq> None \<and>
           load h (RenderTarget_get state bidx idx) \<noteq> None"
  using diff_keys_Some [OF assms] by (simp_all add: expected_directives_def)


lemma expected_setColors_Cons:
  "expected_setColors h buffer state blks (bidx # bidxs) =
     (if expected_directives h buffer state (blks ! bidx) bidx = [] then []
      else [SetColors bidx (expected_directives h buffer state (blks ! bidx) bidx)])
     @ expected_setColors h buffer state blks bidxs"
  by (simp add: expected_setColors_def)

lemma diff_blocks_Inr:
  assumes "diff_blocks bidxs hc L = (Inr hc', L')"
  shows "calls (m_device L') =
           calls (m_device L) @
           expected_setColors (mem L) (m_buffer L) (m_state L) (blocks (m_device L)) bidxs \<and>
         (hc' \<longleftrightarrow> hc \<or>
           expected_setColors (mem L) (m_buffer L) (m_state L) (blocks (m_device L)) bidxs \<noteq> []) \<and>
         mem L' = mem L \<and> m_state L' = m_state L \<and> m_buffer L' = m_buffer L \<and>
         blocks (m_device L') = blocks (m_device L) \<and>
         m_renderers L' = m_renderers L \<and> logged L' = logged L \<and>
         (\<forall>bidx \<in> set bidxs. \<forall>idx < length (keys (blocks (m_device L) ! bidx)).
            load (mem L) (RenderTarget_get (m_buffer L) bidx idx) \<noteq> None \<and>
            load (mem L) (RenderTarget_get (m_state L) bidx idx) \<noteq> None)"
  using assms
proof (induction bidxs arbitrary: hc L)
  case Nil
  then show ?case by (simp add: expected_setColors_def)
next
  case (Cons bidx bidxs)
  let ?block = "blocks (m_device L) ! bidx"
  let ?L0 = "L\<lparr>m_directives := []\<rparr>"
  obtain ds where ds: "diff_keys (mem L) (m_buffer L) (m_state L) ?block bidx
                         [0..<length (keys ?block)] [] = Some ds"
    using Cons.prems by (auto simp: Let_def split: option.splits)
  have exp: "ds = expected_directives (mem L) (m_buffer L) (m_state L) ?block bidx"
    by (rule diff_keys_expected(1) [OF ds])
  have reads: "\<forall>idx < length (keys ?block).
            load (mem L) (RenderTarget_get (m_buffer L) bidx idx) \<noteq> None \<and>
            load (mem L) (RenderTarget_get (m_state L) bidx idx) \<noteq> None"
    using diff_keys_expected(2) [OF ds] by blast
  let ?L1 = "?L0\<lparr>m_directives := ds\<rparr>"
  show ?case
  proof (cases "ds = []")
    case True
    with Cons.prems ds have "diff_blocks bidxs hc ?L1 = (Inr hc', L')"
      by (simp add: Let_def)
    from Cons.IH [OF this] show ?thesis
      using True exp reads by (simp add: expected_setColors_Cons)
  next
    case False
    obtain r L2 where set: "Device_setColors bidx ds ?L1 = (r, L2)"
      by (cases "Device_setColors bidx ds ?L1")
    with Cons.prems ds False obtain u where r: "r = Inr u"
      by (cases r) (simp_all add: Let_def)
    with Cons.prems ds False set have rec: "diff_blocks bidxs True L2 = (Inr hc', L')"
      by (simp add: Let_def)
    have L2: "L2 = ?L1\<lparr>m_device := (m_device ?L1)\<lparr>calls := calls (m_device ?L1) @ [SetColors bidx ds]\<rparr>,
               errno := sets_errno (m_device ?L1) (calls (m_device ?L1)) (SetColors bidx ds)\<rparr>"
      using Device_setColors_Inr set r by blast
    from Cons.IH [OF rec] show ?thesis
      using False exp reads by (simp add: L2 expected_setColors_Cons)
  qed
qed


lemma render_Inr:
  assumes ne: "m_renderers L \<noteq> []" and r: "render nanosec L = (Inr continue, L')"
  shows "\<exists>h. run_renderers nanosec (m_renderers L) (m_buffer L) (mem L) = Some h \<and>
           continue \<and> mem L' = h \<and> m_state L' = m_buffer L \<and> m_buffer L' = m_state L \<and>
           calls (m_device L') =
             calls (m_device L) @ [Flush] @
             expected_setColors h (m_buffer L) (m_state L) (blocks (m_device L))
               [0..<length (blocks (m_device L))] @
             (if expected_setColors h (m_buffer L) (m_state L) (blocks (m_device L))
                   [0..<length (blocks (m_device L))] = [] then [] else [CommitColors]) \<and>
           blocks (m_device L') = blocks (m_device L) \<and>
           m_renderers L' = m_renderers L \<and> logged L' = logged L \<and>
           (\<forall>bidx < length (blocks (m_device L)).
              \<forall>idx < length (keys (blocks (m_device L) ! bidx)).
                load h (RenderTarget_get (m_buffer L) bidx idx) \<noteq> None \<and>
                load h (RenderTarget_get (m_state L) bidx idx) \<noteq> None)"
proof -
  obtain h where h: "run_renderers nanosec (m_renderers L) (m_buffer L) (mem L) = Some h"
    using r by (cases "run_renderers nanosec (m_renderers L) (m_buffer L) (mem L)")
      (simp_all add: render_def)
  let ?L1 = "L\<lparr>mem := h\<rparr>"
  obtain r2 L2 where f: "Device_flush ?L1 = (r2, L2)"
    by (cases "Device_flush ?L1")
  with r h ne obtain u where r2: "r2 = Inr u"
    by (cases r2) (simp_all add: render_def)
  have L2: "L2 = ?L1\<lparr>m_device := (m_device ?L1)\<lparr>calls := calls (m_device ?L1) @ [Flush]\<rparr>,
               errno := sets_errno (m_device ?L1) (calls (m_device ?L1)) Flush\<rparr>"
    using Device_flush_Inr f r2 by blast
  let ?n = "length (blocks (m_device L))"
  have n2: "length (blocks (m_device L2)) = ?n" by (simp add: L2)
  obtain r3 L3 where d: "diff_blocks [0..<?n] False L2 = (r3, L3)"
    by (cases "diff_blocks [0..<?n] False L2")
  with r h ne f r2 n2 obtain hasChanges where r3: "r3 = Inr hasChanges"
    by (cases r3) (simp_all add: render_def)
  note D = diff_blocks_Inr [OF d [unfolded r3]]
  let ?exp = "expected_setColors h (m_buffer L) (m_state L) (blocks (m_device L)) [0..<?n]"
  have hc: "hasChanges \<longleftrightarrow> ?exp \<noteq> []" using D by (simp add: L2)
  obtain r4 L4 where c: "(if hasChanges then Device_commitColors L3 else (Inr (), L3)) = (r4, L4)"
    by (cases "if hasChanges then Device_commitColors L3 else (Inr (), L3)")
  with r h ne f r2 n2 d r3 obtain u' where r4: "r4 = Inr u'"
    by (cases r4) (simp_all add: render_def)
  have fin: "continue \<and> L' = L4\<lparr>m_state := m_buffer L4, m_buffer := m_state L4\<rparr>"
    using r h ne f r2 n2 d r3 c r4 by (simp add: render_def swap_eq)
  have L4: "calls (m_device L4) =
              calls (m_device L3) @ (if hasChanges then [CommitColors] else []) \<and>
            mem L4 = mem L3 \<and> m_state L4 = m_state L3 \<and> m_buffer L4 = m_buffer L3 \<and>
            blocks (m_device L4) = blocks (m_device L3) \<and>
            m_renderers L4 = m_renderers L3 \<and> logged L4 = logged L3"
  proof (cases hasChanges)
    case True
    with c r4 have "Device_commitColors L3 = (Inr u', L4)" by simp
    from Device_commitColors_Inr [OF this] show ?thesis using True by simp
  next
    case False
    with c show ?thesis by simp
  qed
  show ?thesis
    apply (rule exI [of _ h])
    using h fin L4 D hc by (simp add: L2)
qed

lemma Device_setColors_state:
  assumes "Device_setColors bidx ds L = (r, L')"
  shows "L' = L\<lparr>m_device := (m_device L)\<lparr>calls := calls (m_device L) @ [SetColors bidx ds]\<rparr>,
               errno := sets_errno (m_device L) (calls (m_device L)) (SetColors bidx ds)\<rparr>"
  using assms by (auto simp: Device_setColors_def Device_call_eq split: option.splits)

lemma Device_flush_state:
  assumes "Device_flush L = (r, L')"
  shows "L' = L\<lparr>m_device := (m_device L)\<lparr>calls := calls (m_device L) @ [Flush]\<rparr>,
               errno := sets_errno (m_device L) (calls (m_device L)) Flush\<rparr>"
  using assms by (auto simp: Device_flush_def Device_call_eq split: option.splits)

lemma Device_commitColors_state:
  assumes "Device_commitColors L = (r, L')"
  shows "L' = L\<lparr>m_device := (m_device L)\<lparr>calls := calls (m_device L) @ [CommitColors]\<rparr>,
               errno := sets_errno (m_device L) (calls (m_device L)) CommitColors\<rparr>"
  using assms by (auto simp: Device_commitColors_def Device_call_eq split: option.splits)

lemma diff_blocks_prefix:
  assumes "diff_blocks bidxs hc L = (r, L')"
  shows "\<exists>k. calls (m_device L') =
           calls (m_device L) @
           take k (expected_setColors (mem L) (m_buffer L) (m_state L) (blocks (m_device L)) bidxs)"
  using assms
proof (induction bidxs arbitrary: hc L)
  case Nil
  then show ?case by simp
next
  case (Cons bidx bidxs)
  let ?block = "blocks (m_device L) ! bidx"
  let ?L0 = "L\<lparr>m_directives := []\<rparr>"
  let ?exp = "\<lambda>bs. expected_setColors (mem L) (m_buffer L) (m_state L) (blocks (m_device L)) bs"
  show ?case
  proof (cases "diff_keys (mem L) (m_buffer L) (m_state L) ?block bidx
                  [0..<length (keys ?block)] []")
    case None
    with Cons.prems have "L' = ?L0" by (simp add: Let_def)
    then have "calls (m_device L') = calls (m_device L) @ take 0 (?exp (bidx # bidxs))" by simp
    then show ?thesis by blast
  next
    case (Some ds)
    have exp: "ds = expected_directives (mem L) (m_buffer L) (m_state L) ?block bidx"
      by (rule diff_keys_expected(1) [OF Some])
    let ?L1 = "?L0\<lparr>m_directives := ds\<rparr>"
    show ?thesis
    proof (cases "ds = []")
      case True
      with Cons.prems Some have "diff_blocks bidxs hc ?L1 = (r, L')" by (simp add: Let_def)
      from Cons.IH [OF this] obtain k where
        "calls (m_device L') = calls (m_device L) @ take k (?exp bidxs)" by auto
      then have "calls (m_device L') = calls (m_device L) @ take k (?exp (bidx # bidxs))"
        using True exp by (simp add: expected_setColors_Cons)
      then show ?thesis by blast
    next
      case False
      obtain r2 L2 where s: "Device_setColors bidx ds ?L1 = (r2, L2)"
        by (cases "Device_setColors bidx ds ?L1")
      note L2 = Device_setColors_state [OF s]
      have e: "?exp (bidx # bidxs) = SetColors bidx ds # ?exp bidxs"
        using False exp by (simp add: expected_setColors_Cons)
      show ?thesis
      proof (cases r2)
        case (Inl x)
        with Cons.prems Some False s have "L' = L2" by (simp add: Let_def)
        then have "calls (m_device L') = calls (m_device L) @ take 1 (?exp (bidx # bidxs))"
          by (simp add: L2 e)
        then show ?thesis by blast
      next
        case (Inr u)
        with Cons.prems Some False s have "diff_blocks bidxs True L2 = (r, L')"
          by (simp add: Let_def)
        from Cons.IH [OF this] obtain k where
          "calls (m_device L') = calls (m_device L2) @ take k (?exp bidxs)"
          by (auto simp: L2)
        then have "calls (m_device L') = calls (m_device L) @ take (Suc k) (?exp (bidx # bidxs))"
          by (simp add: L2 e)
        then show ?thesis by blast
      qed
    qed
  qed
qed

lemma render_prefix:
  assumes ne: "m_renderers L \<noteq> []" and r: "render nanosec L = (r, L')"
      and h: "run_renderers nanosec (m_renderers L) (m_buffer L) (mem L) = Some h"
  shows "\<exists>k. calls (m_device L') =
           calls (m_device L) @
           take k (expected_calls h (m_buffer L) (m_state L) (blocks (m_device L)))"
proof -
  let ?blks = "blocks (m_device L)"
  let ?exp = "expected_setColors h (m_buffer L) (m_state L) ?blks [0..<length ?blks]"
  let ?full = "expected_calls h (m_buffer L) (m_state L) ?blks"
  have full: "?full = Flush # ?exp @ (if ?exp = [] then [] else [CommitColors])"
    by (simp add: expected_calls_def)
  let ?L1 = "L\<lparr>mem := h\<rparr>"
  obtain r2 L2 where f: "Device_flush ?L1 = (r2, L2)" by (cases "Device_flush ?L1")
  note L2 = Device_flush_state [OF f]
  show ?thesis
  proof (cases r2)
    case (Inl x)
    with r h ne f have "L' = L2" by (simp add: render_def)
    then have "calls (m_device L') = calls (m_device L) @ take 1 ?full"
      by (simp add: L2 full)
    then show ?thesis by blast
  next
    case (Inr u)
    obtain r3 L3 where d: "diff_blocks [0..<length ?blks] False L2 = (r3, L3)"
      by (cases "diff_blocks [0..<length ?blks] False L2")
    have n2: "length (blocks (m_device L2)) = length ?blks" by (simp add: L2)
    show ?thesis
    proof (cases r3)
      case (Inl x)
      with r h ne f Inr d n2 have "L' = L3" by (simp add: render_def)
      moreover from diff_blocks_prefix [OF d] obtain k where
        "calls (m_device L3) = calls (m_device L2) @ take k ?exp"
        by (auto simp: L2)
      ultimately have "calls (m_device L') =
                         calls (m_device L) @ take (Suc (min k (length ?exp))) ?full"
        by (simp add: L2 full min_def)
      then show ?thesis by blast
    next
      case (Inr hasChanges)
      note D = diff_blocks_Inr [OF d [unfolded Inr]]
      have c3: "calls (m_device L3) = calls (m_device L) @ Flush # ?exp"
        using D by (simp add: L2)
      have hc: "hasChanges \<longleftrightarrow> ?exp \<noteq> []" using D by (simp add: L2)
      obtain r4 L4 where c: "(if hasChanges then Device_commitColors L3 else (Inr (), L3)) = (r4, L4)"
        by (cases "if hasChanges then Device_commitColors L3 else (Inr (), L3)")
      have c4: "calls (m_device L4) = calls (m_device L) @ ?full"
      proof (cases hasChanges)
        case True
        with c have "Device_commitColors L3 = (r4, L4)" by simp
        from Device_commitColors_state [OF this] show ?thesis
          using c3 True hc by (simp add: full)
      next
        case False
        with c c3 hc show ?thesis by (simp add: full)
      qed
      have "calls (m_device L') = calls (m_device L4)"
      proof (cases r4)
        case (Inl x)
        with r h ne f \<open>r2 = Inr u\<close> d Inr c n2 show ?thesis by (simp add: render_def)
      next
        case (Inr u')
        with r h ne f \<open>r2 = Inr u\<close> d \<open>r3 = Inr hasChanges\<close> c n2 show ?thesis
          by (auto simp: render_def swap_eq)
      qed
      with c4 have "calls (m_device L') = calls (m_device L) @ take (length ?full) ?full"
        by simp
      then show ?thesis by blast
    qed
  qed
qed

lemma render_no_renderers:
  assumes "m_renderers L = []"
  shows "render nanosec L = (Inr True, L)"
  using assms by (simp add: render_def)




text \<open>
  Claim C2, amended. After every invocation of \<^verbatim>\<open>render\<close> that returns on a non-empty
  renderer list, the current-state buffer is the scratch buffer that was just rendered
  into, cell for cell, whether or not directives were sent: the two targets have exchanged
  their pointers and the heap is the one the renderers left, no cell having been copied.
\<close>

theorem render_swaps:
  assumes "m_renderers L \<noteq> []" and "render nanosec L = (Inr continue, L')"
  shows "\<exists>h. run_renderers nanosec (m_renderers L) (m_buffer L) (mem L) = Some h \<and>
           mem L' = h \<and> m_state L' = m_buffer L \<and> m_buffer L' = m_state L \<and>
           (\<forall>bidx idx. load (mem L') (RenderTarget_get (m_state L') bidx idx) =
                        load h (RenderTarget_get (m_buffer L) bidx idx))"
proof -
  from render_Inr [OF assms] obtain h where
    "run_renderers nanosec (m_renderers L) (m_buffer L) (mem L) = Some h"
    "mem L' = h" "m_state L' = m_buffer L" "m_buffer L' = m_state L"
    by blast
  then show ?thesis by simp
qed

theorem render_swaps_witness:
  "m_renderers demo_loop \<noteq> [] \<and>
   fst (render 0 demo_loop) = Inr True \<and>
   m_state (snd (render 0 demo_loop)) = m_buffer demo_loop \<and>
   m_buffer (snd (render 0 demo_loop)) = m_state demo_loop \<and>
   load (mem (snd (render 0 demo_loop))) (RenderTarget_get (m_state (snd (render 0 demo_loop))) 0 3)
     = Some \<lparr>red = 255, green = 0, blue = 0, alpha = 255\<rparr>"
proof -
  have ne: "m_renderers demo_loop \<noteq> []"
    by (simp add: demo_loop_def)
  have ev: "fst (render 0 demo_loop) = Inr True \<and>
     load (mem (snd (render 0 demo_loop))) (RenderTarget_get (m_state (snd (render 0 demo_loop))) 0 3)
     = Some \<lparr>red = 255, green = 0, blue = 0, alpha = 255\<rparr>"
    by (simp add: render_def demo_loop_def demo_device_def demo_renderer_def run_renderer_def
        Device_flush_def Device_setColors_def Device_commitColors_def Device_call_def
        RenderTarget_get_def load_def zero_memory_def swap_def Let_def upt_rec_numeral)
  then have "render 0 demo_loop = (Inr True, snd (render 0 demo_loop))"
    by (metis prod.collapse)
  from render_swaps [OF ne this]
  have "m_state (snd (render 0 demo_loop)) = m_buffer demo_loop \<and>
        m_buffer (snd (render 0 demo_loop)) = m_state demo_loop"
    by blast
  with ne ev show ?thesis by blast
qed

text \<open>
  As stated, after every invocation, the claim fails on a tick with an empty renderer
  list: nothing is swapped, and the current state keeps cells that differ from the
  scratch buffer's.
\<close>

theorem render_swaps_counterexample:
  "fst (render 0 idle_loop) = Inr True \<and>
   load (mem (snd (render 0 idle_loop))) (RenderTarget_get (m_state (snd (render 0 idle_loop))) 0 0)
     = Some \<lparr>red = 255, green = 255, blue = 255, alpha = 255\<rparr> \<and>
   load (mem (snd (render 0 idle_loop))) (RenderTarget_get (m_buffer (snd (render 0 idle_loop))) 0 0)
     = Some \<lparr>red = 0, green = 0, blue = 0, alpha = 0\<rparr>"
proof -
  have "m_renderers idle_loop = []"
    by (simp add: idle_loop_def)
  then have "render 0 idle_loop = (Inr True, idle_loop)"
    by (rule render_no_renderers)
  then show ?thesis
    by (simp add: idle_loop_def demo_loop_def RenderTarget_get_def load_def
        zero_memory_def lit_memory_def upt_rec_numeral)
qed

text \<open>
  Claim C6. On a tick with an empty renderer list \<^verbatim>\<open>render\<close> reports "continue" and the
  device receives no call; nothing at all changes.
\<close>

theorem render_idle:
  assumes "m_renderers L = []"
  shows "fst (render nanosec L) = Inr True \<and>
         calls (m_device (snd (render nanosec L))) = calls (m_device L) \<and>
         snd (render nanosec L) = L"
  using render_no_renderers [OF assms] by simp

theorem render_idle_witness:
  "m_renderers idle_loop = [] \<and>
   fst (render 0 idle_loop) = Inr True \<and>
   calls (m_device (snd (render 0 idle_loop))) = []"
proof -
  have e: "m_renderers idle_loop = []"
    by (simp add: idle_loop_def)
  have "calls (m_device idle_loop) = []"
    by (simp add: idle_loop_def demo_loop_def demo_device_def)
  with render_idle [OF e, of 0] e show ?thesis by simp
qed

section \<open>Moving a render target\<close>

text \<open>
  Claim C9. Move construction hands the color storage and the block pointers to the new
  object; the moved-from object keeps a null pointer and no block pointers. Destroying
  the moved-from object changes nothing on the heap, so the cells of the new object stay
  readable, and destroying the new object releases what destroying the original would
  have. No cell of the moved-from object can be addressed, neither through
  \<^verbatim>\<open>get\<close> nor from \<^verbatim>\<open>data()\<close>.
\<close>

theorem RenderTarget_move_ownership:
  "m_colors (fst (RenderTarget_move other)) = m_colors other \<and>
   m_blocks (fst (RenderTarget_move other)) = m_blocks other \<and>
   m_nbColors (fst (RenderTarget_move other)) = m_nbColors other \<and>
   m_colors (snd (RenderTarget_move other)) = nullptr \<and>
   m_blocks (snd (RenderTarget_move other)) = [] \<and>
   RenderTarget_dtor (snd (RenderTarget_move other)) h = h \<and>
   load (RenderTarget_dtor (snd (RenderTarget_move other)) h)
        (RenderTarget_get (fst (RenderTarget_move other)) bidx kidx) =
     load h (RenderTarget_get other bidx kidx) \<and>
   load h (RenderTarget_get (snd (RenderTarget_move other)) bidx kidx) = None \<and>
   load h (ptr_add (m_colors (snd (RenderTarget_move other))) kidx) = None \<and>
   RenderTarget_dtor (fst (RenderTarget_move other)) h = RenderTarget_dtor other h"
  by (simp add: RenderTarget_move_def RenderTarget_dtor_def free_def RenderTarget_get_def
      load_def)

section \<open>The initial read\<close>

lemma valid_targetD:
  assumes "valid_target h rt ns"
  obtains a cells where "m_colors rt = Ptr a 0" and "allocs h a = Some cells"
    and "length cells = aligned_total ns"
    and "m_blocks rt = map (\<lambda>b. Ptr a (aligned_total (take b ns))) [0..<length ns]"
  using assms
  by (auto simp: valid_target_def split: ptr.splits option.splits)











section \<open>Frames\<close>








lemma extends_directives: "extends (L\<lparr>m_directives := ds\<rparr>) L' \<Longrightarrow> extends L L'"
  by (simp add: extends_def)




section \<open>The retry loop\<close>

lemma run_loop_returns:
  assumes "AnimationLoop_run ticks L = (Inr u, rest, L1)"
  shows "run_loop ticks L = (Inr (), rest, L1)"
  using assms by (simp add: run_loop.simps [of ticks L])

lemma run_loop_other:
  assumes "AnimationLoop_run ticks L = (Inl e, rest, L1)" and "\<forall>error. e \<noteq> DeviceError error"
  shows "run_loop ticks L = (Inl e, rest, L1)"
  using assms by (cases e) (simp_all add: run_loop.simps [of ticks L])

lemma run_loop_device_error:
  assumes "AnimationLoop_run ticks L = (Inl (DeviceError error), rest, L1)"
  shows "run_loop ticks L =
           (case Device_resync L1 of
              (Inl e, L2) \<Rightarrow> (Inl e, rest, L2)
            | (Inr ok, L2) \<Rightarrow>
                if \<not> ok then (Inl (DeviceError error), rest, L2) else run_loop rest L2)"
  using assms by (simp add: run_loop.simps [of ticks L])










section \<open>The initial read returns\<close>




text \<open>A loop constructed for a device whose layout fits \<^verbatim>\<open>size_t\<close> has well-formed targets.\<close>

lemma RenderTarget_ctor_valid:
  assumes fits: "fits_size_t block_sizes"
      and ctor: "RenderTarget_ctor block_sizes env h = (Inr rt, h')"
  shows "valid_target h' rt (map unat block_sizes)"
proof -
  let ?ns = "map unat block_sizes"
  let ?a = "next_alloc h"
  from ctor_success [OF ctor] obtain g where
    rt: "rt = \<lparr>m_colors = Ptr ?a 0, m_nbColors = totalColors_loop 0 block_sizes,
               m_blocks = blocks_loop (Ptr ?a 0) 0 block_sizes\<rparr>"
    and h': "h' = h\<lparr>allocs := (allocs h)(?a \<mapsto>
                        map g [0..<unat (totalColors_loop 0 block_sizes * sizeof_RGBAColor) div 4]),
                    next_alloc := Suc ?a\<rparr>"
    by blast
  have "blocks_loop (Ptr ?a 0) 0 block_sizes =
          map (\<lambda>b. Ptr ?a (aligned_total (take b ?ns))) [0..<length ?ns]"
    by (rule nth_equalityI) (simp_all add: length_blocks_loop fits_block [OF fits])
  then show ?thesis
    by (simp add: valid_target_def rt h' fits_bytes [OF fits])
qed

lemma valid_target_other_alloc:
  assumes "valid_target h rt ns" and "m_colors rt = Ptr a 0" and "b \<noteq> a"
  shows "valid_target (h\<lparr>allocs := (allocs h)(b \<mapsto> cs), next_alloc := n\<rparr>) rt ns"
  using assms by (auto simp: valid_target_def split: option.splits)

lemma layout_sizes:
  assumes "4 * aligned_total (device_layout device) < 2 ^ 64"
  shows "map unat (map (\<lambda>block. of_nat (length (keys block)) :: size_t) (blocks device)) =
         device_layout device"
proof -
  have "length (keys block) < 2 ^ 64" if "block \<in> set (blocks device)" for block
  proof -
    have "length (keys block) \<in> set (device_layout device)"
      using that by (auto simp: device_layout_def)
    then have "length (keys block) \<le> sum_list (device_layout device)"
      by (simp add: member_le_sum_list)
    also have "\<dots> \<le> aligned_total (device_layout device)"
      using foldl_round_sum [of 0 "device_layout device"] by (simp add: aligned_total_def)
    finally show ?thesis using assms by simp
  qed
  then have "unat (of_nat (length (keys block)) :: size_t) = length (keys block)"
    if "block \<in> set (blocks device)" for block
    using that by (simp add: unat_of_nat take_bit_nat_eq_self)
  then show ?thesis by (simp add: device_layout_def)
qed

lemma RenderLoop_ctor_valid:
  assumes fits: "4 * aligned_total (device_layout device) < 2 ^ 64"
      and ctor: "RenderLoop_ctor device renderers fps env_state env_buffer h = Inr L"
  shows "valid_target (mem L) (m_state L) (device_layout (m_device L)) \<and>
         valid_target (mem L) (m_buffer L) (device_layout (m_device L))"
proof -
  let ?sizes = "map (\<lambda>block. of_nat (length (keys block)) :: size_t) (blocks device)"
  have ns: "map unat ?sizes = device_layout device" by (rule layout_sizes [OF fits])
  have f: "fits_size_t ?sizes" using fits ns by (simp add: fits_size_t_def)
  from ctor obtain state h1 buffer h2 where
    s: "RenderTarget_ctor ?sizes env_state h = (Inr state, h1)"
    and b: "RenderTarget_ctor ?sizes env_buffer h1 = (Inr buffer, h2)"
    and L: "L = \<lparr>m_device = device, m_renderers = renderers, m_state = state,
                 m_buffer = buffer, m_directives = [], mem = h2, errno = 0, logged = []\<rparr>"
    by (auto simp: RenderLoop_ctor_def renderTargetFor_def split: prod.splits sum.splits)
  have vs: "valid_target h1 state (device_layout device)"
    using RenderTarget_ctor_valid [OF f s] ns by simp
  have vb: "valid_target h2 buffer (device_layout device)"
    using RenderTarget_ctor_valid [OF f b] ns by simp
  from ctor_success [OF s] have ms: "m_colors state = Ptr (next_alloc h) 0"
    and n1: "next_alloc h1 = Suc (next_alloc h)" by auto
  from ctor_success [OF b] obtain g where
    h2: "h2 = h1\<lparr>allocs := (allocs h1)(next_alloc h1 \<mapsto>
                   map g [0..<unat (totalColors_loop 0 ?sizes * sizeof_RGBAColor) div 4]),
                  next_alloc := Suc (next_alloc h1)\<rparr>"
    by blast
  have "next_alloc h1 \<noteq> next_alloc h" using n1 by simp
  then have "valid_target h2 state (device_layout device)"
    unfolding h2 by (rule valid_target_other_alloc [OF vs ms])
  with vb show ?thesis by (simp add: L)
qed

section \<open>A tick on valid targets\<close>

text \<open>The shape of the heap is all that the validity of a target depends on.\<close>

lemma same_shape_refl: "same_shape h h"
  by (simp add: same_shape_def)

lemma same_shape_trans: "same_shape h h1 \<Longrightarrow> same_shape h1 h2 \<Longrightarrow> same_shape h h2"
  by (simp add: same_shape_def)

lemma valid_target_shape:
  assumes "valid_target h rt ns" and "same_shape h h'"
  shows "valid_target h' rt ns"
proof -
  from assms(1) obtain a cells where
    c: "m_colors rt = Ptr a 0" and al: "allocs h a = Some cells"
    and len: "length cells = aligned_total ns"
    and blks: "m_blocks rt = map (\<lambda>b. Ptr a (aligned_total (take b ns))) [0..<length ns]"
    by (rule valid_targetD)
  from assms(2) have "map_option length (allocs h' a) = map_option length (allocs h a)"
    by (simp add: same_shape_def)
  with al len obtain cells' where "allocs h' a = Some cells'" "length cells' = aligned_total ns"
    by (cases "allocs h' a") auto
  with c blks show ?thesis by (simp add: valid_target_def)
qed

lemma run_renderer_valid:
  assumes "m_colors target = Ptr a 0" and "allocs h a = Some cells"
  shows "\<exists>h'. run_renderer r nanosec target h = Some h' \<and> same_shape h h'"
  using assms by (simp add: run_renderer_def same_shape_def)

lemma run_renderers_valid:
  assumes "m_colors target = Ptr a 0" and "allocs h a = Some cells"
  shows "\<exists>h'. run_renderers nanosec rs target h = Some h' \<and> same_shape h h'"
  using assms(2)
proof (induction rs arbitrary: h cells)
  case Nil
  show ?case by (simp add: same_shape_refl)
next
  case (Cons r rs)
  from run_renderer_valid [OF assms(1) Cons.prems, of r nanosec] obtain h1 where
    one: "run_renderer r nanosec target h = Some h1" and s1: "same_shape h h1"
    by blast
  from s1 Cons.prems obtain cells1 where a1: "allocs h1 a = Some cells1"
    by (cases "allocs h1 a") (auto simp: same_shape_def dest: spec [of _ a])
  from Cons.IH [OF a1] obtain h' where
    "run_renderers nanosec rs target h1 = Some h'" "same_shape h1 h'"
    by blast
  with one s1 show ?case by (auto intro: same_shape_trans)
qed







text \<open>The device calls of the step, as equations.\<close>

lemma Device_flush_eq:
  "Device_flush L =
     (case raises (m_device L) (calls (m_device L)) Flush of Some e \<Rightarrow> Inl e | None \<Rightarrow> Inr (),
      L\<lparr>m_device := (m_device L)\<lparr>calls := calls (m_device L) @ [Flush]\<rparr>,
        errno := sets_errno (m_device L) (calls (m_device L)) Flush\<rparr>)"
  by (simp add: Device_flush_def Device_call_eq split: option.splits)

lemma Device_setColors_eq:
  "Device_setColors bidx ds L =
     (case raises (m_device L) (calls (m_device L)) (SetColors bidx ds) of
        Some e \<Rightarrow> Inl e | None \<Rightarrow> Inr (),
      L\<lparr>m_device := (m_device L)\<lparr>calls := calls (m_device L) @ [SetColors bidx ds]\<rparr>,
        errno := sets_errno (m_device L) (calls (m_device L)) (SetColors bidx ds)\<rparr>)"
  by (simp add: Device_setColors_def Device_call_eq split: option.splits)

lemma Device_commitColors_eq:
  "Device_commitColors L =
     (case raises (m_device L) (calls (m_device L)) CommitColors of
        Some e \<Rightarrow> Inl e | None \<Rightarrow> Inr (),
      L\<lparr>m_device := (m_device L)\<lparr>calls := calls (m_device L) @ [CommitColors]\<rparr>,
        errno := sets_errno (m_device L) (calls (m_device L)) CommitColors\<rparr>)"
  by (simp add: Device_commitColors_def Device_call_eq split: option.splits)







text \<open>Every step of \<^verbatim>\<open>run\<close> keeps both targets laid out for the device.\<close>

lemma keeps_refl: "keeps L L"
  by (simp add: keeps_def same_shape_refl)

lemma keeps_trans: "keeps L L1 \<Longrightarrow> keeps L1 L2 \<Longrightarrow> keeps L L2"
  by (auto simp: keeps_def intro: same_shape_trans)

lemma keeps_valid:
  assumes "keeps L L'" and "loop_valid L"
  shows "loop_valid L'"
  using assms
  by (auto simp: keeps_def loop_valid_def device_layout_def intro: valid_target_shape)

lemma Device_call_keeps: "keeps L (snd (Device_call c L))"
  by (simp add: Device_call_eq keeps_def same_shape_refl)

lemma Device_setColors_keeps: "keeps L (snd (Device_setColors b ds L))"
  by (simp add: Device_setColors_eq keeps_def same_shape_refl)

lemma Device_setTimeout_keeps: "keeps L (snd (Device_setTimeout us L))"
  using Device_call_keeps [of L "SetTimeout us"]
  by (auto simp: Device_setTimeout_def split: prod.splits option.splits)

lemma Device_resync_keeps: "keeps L (snd (Device_resync L))"
  using Device_call_keeps [of L Resync]
  by (auto simp: Device_resync_def split: prod.splits option.splits)

lemma Device_getColors_keeps: "keeps L (snd (Device_getColors b L))"
  using Device_call_keeps [of L "GetColors b"]
  by (auto simp: Device_getColors_def split: prod.splits option.splits)

lemma diff_blocks_keeps: "keeps L (snd (diff_blocks bs hc L))"
proof (induction bs arbitrary: hc L)
  case Nil
  show ?case by (simp add: keeps_refl)
next
  case (Cons b bs)
  let ?block = "blocks (m_device L) ! b"
  show ?case
  proof (cases "diff_keys (mem L) (m_buffer L) (m_state L) ?block b [0..<length (keys ?block)] []")
    case None
    then show ?thesis by (simp add: Let_def keeps_def same_shape_refl)
  next
    case (Some ds)
    let ?L1 = "L\<lparr>m_directives := []\<rparr>\<lparr>m_directives := ds\<rparr>"
    have k1: "keeps L ?L1" by (simp add: keeps_def same_shape_refl)
    show ?thesis
    proof (cases "ds = []")
      case True
      with Some have "diff_blocks (b # bs) hc L = diff_blocks bs hc ?L1" by (simp add: Let_def)
      with keeps_trans [OF k1 Cons.IH [of ?L1 hc]] show ?thesis by simp
    next
      case False
      let ?L2 = "snd (Device_setColors b ds ?L1)"
      have k2: "keeps L ?L2" using keeps_trans [OF k1 Device_setColors_keeps] .
      show ?thesis
      proof (cases "fst (Device_setColors b ds ?L1)")
        case (Inl e)
        with Some False have "snd (diff_blocks (b # bs) hc L) = ?L2"
          by (cases "Device_setColors b ds ?L1") (simp add: Let_def)
        with k2 show ?thesis by simp
      next
        case (Inr u)
        with Some False have "diff_blocks (b # bs) hc L = diff_blocks bs True ?L2"
          by (cases "Device_setColors b ds ?L1") (simp add: Let_def)
        with keeps_trans [OF k2 Cons.IH [of ?L2 True]] show ?thesis by simp
      qed
    qed
  qed
qed

lemma loop_valid_swap:
  "loop_valid (L\<lparr>m_state := m_buffer L, m_buffer := m_state L\<rparr>) = loop_valid L"
  by (auto simp: loop_valid_def)

lemma render_loop_valid:
  assumes v: "loop_valid L"
  shows "loop_valid (snd (render nanosec L))"
proof (cases "run_renderers nanosec (m_renderers L) (m_buffer L) (mem L)")
  case None
  with v show ?thesis by (simp add: render_def)
next
  case (Some h)
  from v obtain a cells where mc: "m_colors (m_buffer L) = Ptr a 0"
    and al: "allocs (mem L) a = Some cells"
    unfolding loop_valid_def by (auto elim: valid_targetD)
  from run_renderers_valid [OF mc al, of nanosec "m_renderers L"] Some
  have sh: "same_shape (mem L) h" by simp
  let ?L1 = "L\<lparr>mem := h\<rparr>"
  have v1: "loop_valid ?L1"
    using v sh by (auto simp: loop_valid_def intro: valid_target_shape)
  show ?thesis
  proof (cases "m_renderers L = []")
    case True
    with Some v1 show ?thesis by (simp add: render_def)
  next
    case False
    let ?L2 = "snd (Device_flush ?L1)"
    have v2: "loop_valid ?L2"
      by (rule keeps_valid [OF _ v1]) (simp add: Device_flush_eq keeps_def same_shape_refl)
    have n2: "length (blocks (m_device ?L2)) = length (blocks (m_device L))"
      by (simp add: Device_flush_eq)
    let ?L3 = "snd (diff_blocks [0..<length (blocks (m_device L))] False ?L2)"
    have v3: "loop_valid ?L3" by (rule keeps_valid [OF diff_blocks_keeps v2])
    let ?L4 = "snd (Device_commitColors ?L3)"
    have v4: "loop_valid ?L4"
      by (rule keeps_valid [OF _ v3]) (simp add: Device_commitColors_eq keeps_def same_shape_refl)
    have "snd (render nanosec L) \<in>
            {?L2, ?L3, ?L4, ?L3\<lparr>m_state := m_buffer ?L3, m_buffer := m_state ?L3\<rparr>,
             ?L4\<lparr>m_state := m_buffer ?L4, m_buffer := m_state ?L4\<rparr>}"
      using Some False n2
      by (simp add: render_def swap_eq split: prod.splits sum.splits if_splits) auto
    with v2 v3 v4 show ?thesis by (auto simp: loop_valid_swap)
  qed
qed

lemma store_shape:
  assumes "store h p c = Some h'"
  shows "same_shape h h'"
  using assms by (auto simp: store_def same_shape_def split: ptr.splits option.splits if_splits)

lemma write_colors_shape:
  assumes "write_colors state b idx cs h = Some h'"
  shows "same_shape h h'"
  using assms
proof (induction cs arbitrary: idx h)
  case Nil
  then show ?case by (simp add: same_shape_refl)
next
  case (Cons c cs)
  from Cons.prems obtain color h1 where
    s: "store h (RenderTarget_get state b idx)
          (color\<lparr>red := dir_red c, green := dir_green c, blue := dir_blue c, alpha := 255\<rparr>)
        = Some h1"
    and w: "write_colors state b (Suc idx) cs h1 = Some h'"
    by (auto split: option.splits)
  from same_shape_trans [OF store_shape [OF s] Cons.IH [OF w]] show ?case .
qed

lemma getDeviceState_loop_keeps: "keeps L (snd (getDeviceState_loop bs state L))"
proof (induction bs arbitrary: L)
  case Nil
  show ?case by (simp add: keeps_refl)
next
  case (Cons b bs)
  let ?L1 = "snd (Device_getColors b L)"
  have k1: "keeps L ?L1" by (rule Device_getColors_keeps)
  show ?case
  proof (cases "fst (Device_getColors b L)")
    case (Inl e)
    then have "snd (getDeviceState_loop (b # bs) state L) = ?L1"
      by (cases "Device_getColors b L") simp
    with k1 show ?thesis by simp
  next
    case (Inr cs)
    show ?thesis
    proof (cases "write_colors state b 0 cs (mem ?L1)")
      case None
      with Inr have "snd (getDeviceState_loop (b # bs) state L) = ?L1"
        by (cases "Device_getColors b L") simp
      with k1 show ?thesis by simp
    next
      case (Some h)
      have "keeps ?L1 (?L1\<lparr>mem := h\<rparr>)"
        using write_colors_shape [OF Some] by (simp add: keeps_def)
      with k1 have k2: "keeps L (?L1\<lparr>mem := h\<rparr>)" by (rule keeps_trans)
      from Inr Some have "getDeviceState_loop (b # bs) state L =
                            getDeviceState_loop bs state (?L1\<lparr>mem := h\<rparr>)"
        by (cases "Device_getColors b L") simp
      with keeps_trans [OF k2 Cons.IH [of "?L1\<lparr>mem := h\<rparr>"]] show ?thesis by simp
    qed
  qed
qed

lemma getDeviceState_loop_valid:
  "loop_valid L \<Longrightarrow> loop_valid (snd (getDeviceState state L))"
  unfolding getDeviceState_def by (rule keeps_valid [OF getDeviceState_loop_keeps])

lemma AnimationLoop_run_loop_valid:
  "loop_valid L \<Longrightarrow> loop_valid (snd (snd (AnimationLoop_run ticks L)))"
proof (induction ticks arbitrary: L)
  case Nil
  then show ?case by simp
next
  case (Cons nanosec ticks)
  have v1: "loop_valid (snd (render nanosec L))" by (rule render_loop_valid [OF Cons.prems])
  show ?case
  proof (cases "render nanosec L")
    case (Pair r L1)
    with v1 have v: "loop_valid L1" by simp
    show ?thesis
    proof (cases r)
      case (Inl e)
      with Pair v show ?thesis by simp
    next
      case (Inr continue)
      with Pair v Cons.IH [OF v] show ?thesis by simp
    qed
  qed
qed

lemma run_loop_valid:
  "loop_valid L \<Longrightarrow> loop_valid (snd (snd (run_loop ticks L)))"
proof (induction "length ticks" arbitrary: ticks L rule: less_induct)
  case less
  obtain r1 rest1 L1 where a: "AnimationLoop_run ticks L = (r1, rest1, L1)"
    by (cases "AnimationLoop_run ticks L")
  have v1: "loop_valid L1"
    using AnimationLoop_run_loop_valid [OF less.prems, of ticks] a by simp
  show ?case
  proof (cases r1)
    case (Inr u)
    with a run_loop_returns [of ticks L u rest1 L1] v1 show ?thesis by simp
  next
    case (Inl e)
    show ?thesis
    proof (cases "\<exists>error. e = DeviceError error")
      case False
      with a Inl run_loop_other [of ticks L e rest1 L1] v1 show ?thesis by simp
    next
      case True
      then obtain error where e: "e = DeviceError error" by blast
      note unfold = run_loop_device_error [OF a [unfolded Inl e]]
      let ?L2 = "snd (Device_resync L1)"
      have v2: "loop_valid ?L2" by (rule keeps_valid [OF Device_resync_keeps v1])
      have shorter: "length rest1 < length ticks"
        using a Inl by (auto dest: AnimationLoop_run_raises_shorter)
      show ?thesis
      proof (cases "Device_resync L1")
        case (Pair r2 L2)
        with v2 have v2': "loop_valid L2" by simp
        show ?thesis
        proof (cases r2)
          case (Inl e')
          with unfold Pair v2' show ?thesis by simp
        next
          case (Inr ok)
          with unfold Pair v2' less.hyps [OF shorter v2'] show ?thesis by (cases ok) simp_all
        qed
      qed
    qed
  qed
qed

text \<open>The constructor leaves both targets laid out for the device.\<close>

lemma RenderLoop_ctor_loop_valid:
  assumes "4 * aligned_total (device_layout device) < 2 ^ 64"
      and "RenderLoop_ctor device renderers fps env_state env_buffer h = Inr L"
  shows "loop_valid L"
  using RenderLoop_ctor_valid [OF assms] by (simp add: loop_valid_def)

lemma started_loop_valid:
  assumes "loop_valid L"
  shows "loop_valid (started L)"
  unfolding started_def
  by (rule keeps_valid [OF Device_setTimeout_keeps getDeviceState_loop_valid [OF assms]])








section \<open>run\<close>











section \<open>Fresh memory\<close>














end
